theory Spec2Isabelle
  imports Main
begin

section \<open>The undo/redo history manager of \<^verbatim>\<open>history_manager.py\<close>\<close>

text \<open>
  The class \<^verbatim>\<open>HistoryManager\<close> keeps the current image and two bounded
  \<^verbatim>\<open>collections.deque\<close> objects of earlier and undone images. Images are numpy
  arrays, that is mutable objects: a method receives and returns references, and
  \<^verbatim>\<open>.copy()\<close> makes a new object. The model therefore has an explicit heap of
  array objects, and the manager holds references into it.

  The attributes keep their names without the leading underscore, the methods keep
  theirs, and \<^verbatim>\<open>__init__\<close> is \<open>hm_init\<close>. \<^verbatim>\<open>get_memory_usage\<close>, \<^verbatim>\<open>__str__\<close> and
  \<^verbatim>\<open>__repr__\<close> only read the object and are left out.
\<close>

subsection \<open>Errors\<close>

datatype py_error = ValueError | OverflowError | IndexError

subsection \<open>Array objects\<close>

text \<open>
  A reference is an index into the heap; the heap is the list of the contents of all array
  objects made so far. The contents type \<open>'a\<close> stands for shape, element type and pixels
  of one array. \<^verbatim>\<open>a.copy()\<close> allocates a new object with the contents of \<open>a\<close>;
  writing into an array (which only callers do) replaces the contents of that one object.
\<close>

type_synonym ref = nat
type_synonym 'a heap = "'a list"

definition ndarray_copy :: "'a heap \<Rightarrow> ref \<Rightarrow> 'a heap \<times> ref" where
  "ndarray_copy h r = (h @ [h ! r], length h)"

definition ndarray_write :: "'a heap \<Rightarrow> ref \<Rightarrow> 'a \<Rightarrow> 'a heap" where
  "ndarray_write h r v = h[r := v]"

subsection \<open>\<^verbatim>\<open>collections.deque\<close> with a \<^verbatim>\<open>maxlen\<close>\<close>

text \<open>
  The operations of Python's bounded deque that the class uses. \<^verbatim>\<open>deque(maxlen=n)\<close>
  converts \<open>n\<close> to a machine index (OverflowError outside the range of a signed 64-bit
  integer on 64-bit CPython) and raises ValueError when it is negative.
  \<^verbatim>\<open>append\<close> adds on the right and, when the deque is then longer than
  \<^verbatim>\<open>maxlen\<close>, drops the leftmost item. \<^verbatim>\<open>pop\<close> removes and returns the
  rightmost item and raises IndexError on an empty deque. \<^verbatim>\<open>clear\<close> removes all
  items and keeps \<^verbatim>\<open>maxlen\<close>.
\<close>

record 'a deque =
  items :: "'a list"
  maxlen :: nat

definition PY_SSIZE_T_MAX :: int where
  "PY_SSIZE_T_MAX = 2 ^ 63 - 1"

definition deque_new :: "int \<Rightarrow> py_error + 'a deque" where
  "deque_new n =
     (if n < - PY_SSIZE_T_MAX - 1 \<or> PY_SSIZE_T_MAX < n then Inl OverflowError
      else if n < 0 then Inl ValueError
      else Inr \<lparr>items = [], maxlen = nat n\<rparr>)"

definition deque_len :: "'a deque \<Rightarrow> nat" where
  "deque_len d = length (items d)"

definition deque_append :: "'a deque \<Rightarrow> 'a \<Rightarrow> 'a deque" where
  "deque_append d x =
     (let ys = items d @ [x]
      in d\<lparr>items := (if maxlen d < length ys then tl ys else ys)\<rparr>)"

definition deque_pop :: "'a deque \<Rightarrow> py_error + ('a \<times> 'a deque)" where
  "deque_pop d =
     (if items d = [] then Inl IndexError
      else Inr (last (items d), d\<lparr>items := butlast (items d)\<rparr>))"

definition deque_clear :: "'a deque \<Rightarrow> 'a deque" where
  "deque_clear d = d\<lparr>items := []\<rparr>"

subsection \<open>The class\<close>

record HistoryManager =
  history_stack :: "ref deque"
  redo_stack :: "ref deque"
  max_history :: int
  current_state :: "ref option"

text \<open>\<^verbatim>\<open>__init__\<close>: the two deques are made first, so their errors are the constructor's.\<close>

definition hm_init :: "int \<Rightarrow> py_error + HistoryManager" where
  "hm_init n =
     (case deque_new n of
        Inl e \<Rightarrow> Inl e
      | Inr d1 \<Rightarrow>
          (case deque_new n of
             Inl e \<Rightarrow> Inl e
           | Inr d2 \<Rightarrow>
               Inr \<lparr>history_stack = d1, redo_stack = d2, max_history = n,
                    current_state = None\<rparr>))"

definition can_undo :: "HistoryManager \<Rightarrow> bool" where
  "can_undo s = (0 < deque_len (history_stack s))"

definition can_redo :: "HistoryManager \<Rightarrow> bool" where
  "can_redo s = (0 < deque_len (redo_stack s))"

definition history_count :: "HistoryManager \<Rightarrow> nat" where
  "history_count s = deque_len (history_stack s)"

text \<open>
  Every method takes the heap and the object and returns both, with the method's result
  where it has one.
\<close>

definition add_state :: "'a heap \<Rightarrow> HistoryManager \<Rightarrow> ref \<Rightarrow> 'a heap \<times> HistoryManager" where
  "add_state h s img =
     (let (h1, s1) =
            (case current_state s of
               None \<Rightarrow> (h, s)
             | Some c \<Rightarrow>
                 (let (h', c') = ndarray_copy h c
                  in (h', s\<lparr>history_stack := deque_append (history_stack s) c'\<rparr>)));
          (h2, i') = ndarray_copy h1 img;
          s2 = s1\<lparr>current_state := Some i'\<rparr>
      in (h2, s2\<lparr>redo_stack := deque_clear (redo_stack s2)\<rparr>))"

definition undo :: "'a heap \<Rightarrow> HistoryManager \<Rightarrow> py_error + ('a heap \<times> HistoryManager \<times> ref option)" where
  "undo h s =
     (if \<not> can_undo s then Inr (h, s, None)
      else
        (let (h1, s1) =
               (case current_state s of
                  None \<Rightarrow> (h, s)
                | Some c \<Rightarrow>
                    (let (h', c') = ndarray_copy h c
                     in (h', s\<lparr>redo_stack := deque_append (redo_stack s) c'\<rparr>)))
         in (case deque_pop (history_stack s1) of
               Inl e \<Rightarrow> Inl e
             | Inr (r, d) \<Rightarrow>
                 (let s2 = s1\<lparr>history_stack := d, current_state := Some r\<rparr>;
                      (h2, out) = ndarray_copy h1 r
                  in Inr (h2, s2, Some out)))))"

definition redo :: "'a heap \<Rightarrow> HistoryManager \<Rightarrow> py_error + ('a heap \<times> HistoryManager \<times> ref option)" where
  "redo h s =
     (if \<not> can_redo s then Inr (h, s, None)
      else
        (let (h1, s1) =
               (case current_state s of
                  None \<Rightarrow> (h, s)
                | Some c \<Rightarrow>
                    (let (h', c') = ndarray_copy h c
                     in (h', s\<lparr>history_stack := deque_append (history_stack s) c'\<rparr>)))
         in (case deque_pop (redo_stack s1) of
               Inl e \<Rightarrow> Inl e
             | Inr (r, d) \<Rightarrow>
                 (let s2 = s1\<lparr>redo_stack := d, current_state := Some r\<rparr>;
                      (h2, out) = ndarray_copy h1 r
                  in Inr (h2, s2, Some out)))))"

definition clear_history :: "'a heap \<Rightarrow> HistoryManager \<Rightarrow> 'a heap \<times> HistoryManager" where
  "clear_history h s =
     (h, s\<lparr>history_stack := deque_clear (history_stack s),
           redo_stack := deque_clear (redo_stack s),
           current_state := None\<rparr>)"

definition get_current_state :: "'a heap \<Rightarrow> HistoryManager \<Rightarrow> 'a heap \<times> HistoryManager \<times> ref option" where
  "get_current_state h s =
     (case current_state s of
        Some c \<Rightarrow> (let (h', out) = ndarray_copy h c in (h', s, Some out))
      | None \<Rightarrow> (h, s, None))"

definition initialize_state :: "'a heap \<Rightarrow> HistoryManager \<Rightarrow> ref \<Rightarrow> 'a heap \<times> HistoryManager" where
  "initialize_state h s img =
     (let (h1, s1) = clear_history h s;
          (h2, i') = ndarray_copy h1 img
      in (h2, s1\<lparr>current_state := Some i'\<rparr>))"

subsection \<open>Sequences of calls\<close>

text \<open>
  A call of one of the methods; the properties \<^verbatim>\<open>can_undo\<close>, \<^verbatim>\<open>can_redo\<close> and
  \<^verbatim>\<open>history_count\<close> only read the object. \<open>step\<close> makes one call and gives the new
  heap, the new object and the reference the method returned (\<open>None\<close> for Python's
  \<^verbatim>\<open>None\<close>); \<open>run\<close> makes the calls of a list in order.
\<close>

datatype hm_op =
    AddState ref
  | Undo
  | Redo
  | ClearHistory
  | GetCurrentState
  | InitializeState ref

fun step :: "'a heap \<Rightarrow> HistoryManager \<Rightarrow> hm_op \<Rightarrow> py_error + ('a heap \<times> HistoryManager \<times> ref option)" where
  "step h s (AddState img) = (case add_state h s img of (h', s') \<Rightarrow> Inr (h', s', None))"
| "step h s Undo = undo h s"
| "step h s Redo = redo h s"
| "step h s ClearHistory = (case clear_history h s of (h', s') \<Rightarrow> Inr (h', s', None))"
| "step h s GetCurrentState = Inr (get_current_state h s)"
| "step h s (InitializeState img) =
     (case initialize_state h s img of (h', s') \<Rightarrow> Inr (h', s', None))"

fun run :: "'a heap \<Rightarrow> HistoryManager \<Rightarrow> hm_op list \<Rightarrow> py_error + ('a heap \<times> HistoryManager)" where
  "run h s [] = Inr (h, s)"
| "run h s (x # xs) =
     (case step h s x of Inl e \<Rightarrow> Inl e | Inr (h', s', r) \<Rightarrow> run h' s' xs)"

subsection \<open>What the manager holds, as contents\<close>

definition current_value :: "'a heap \<Rightarrow> HistoryManager \<Rightarrow> 'a option" where
  "current_value h s = map_option (\<lambda>r. h ! r) (current_state s)"

definition undo_values :: "'a heap \<Rightarrow> HistoryManager \<Rightarrow> 'a list" where
  "undo_values h s = map (\<lambda>r. h ! r) (items (history_stack s))"

definition redo_values :: "'a heap \<Rightarrow> HistoryManager \<Rightarrow> 'a list" where
  "redo_values h s = map (\<lambda>r. h ! r) (items (redo_stack s))"

definition refs_of :: "HistoryManager \<Rightarrow> ref list" where
  "refs_of s =
     items (history_stack s) @ items (redo_stack s) @
     (case current_state s of None \<Rightarrow> [] | Some c \<Rightarrow> [c])"

text \<open>Every reference the manager holds is an object of the heap.\<close>

definition refs_ok :: "'a heap \<Rightarrow> HistoryManager \<Rightarrow> bool" where
  "refs_ok h s = list_all (\<lambda>r. r < length h) (refs_of s)"

text \<open>
  The representation invariant of the class: both deques were made with
  \<^verbatim>\<open>maxlen=max_history\<close>, together they hold at most that many items, and a
  manager that holds history has a current image.
\<close>

definition hm_inv :: "HistoryManager \<Rightarrow> bool" where
  "hm_inv s =
     (0 \<le> max_history s \<and>
      maxlen (history_stack s) = nat (max_history s) \<and>
      maxlen (redo_stack s) = nat (max_history s) \<and>
      deque_len (history_stack s) + deque_len (redo_stack s) \<le> nat (max_history s) \<and>
      (can_undo s \<or> can_redo s \<longrightarrow> current_state s \<noteq> None))"

text \<open>
  \<open>trace\<close> makes the calls of a list and records after each one what the caller sees:
  the contents of the returned array and the contents of current image, undo stack and
  redo stack.
\<close>

type_synonym 'a observation = "'a option \<times> 'a option \<times> 'a list \<times> 'a list"

fun trace :: "'a heap \<Rightarrow> HistoryManager \<Rightarrow> hm_op list \<Rightarrow> py_error + 'a observation list" where
  "trace h s [] = Inr []"
| "trace h s (x # xs) =
     (case step h s x of
        Inl e \<Rightarrow> Inl e
      | Inr (h', s', r) \<Rightarrow>
          (case trace h' s' xs of
             Inl e \<Rightarrow> Inl e
           | Inr obs \<Rightarrow>
               Inr ((map_option (\<lambda>a. h' ! a) r, current_value h' s', undo_values h' s',
                     redo_values h' s') # obs)))"

text \<open>The last \<open>n\<close> elements of a list, and an optional value as a list.\<close>

definition last_n :: "nat \<Rightarrow> 'a list \<Rightarrow> 'a list" where
  "last_n n xs = drop (length xs - n) xs"

definition option_list :: "'a option \<Rightarrow> 'a list" where
  "option_list x = (case x of None \<Rightarrow> [] | Some v \<Rightarrow> [v])"

text \<open>
  \<^verbatim>\<open>initializeState\<close> as the specification words it: \<^verbatim>\<open>clearHistory()\<close>, then
  the current image is set to a deep copy of the argument.
\<close>

definition set_current_copy :: "'a heap \<Rightarrow> HistoryManager \<Rightarrow> ref \<Rightarrow> 'a heap \<times> HistoryManager" where
  "set_current_copy h s img = (h @ [h ! img], s\<lparr>current_state := Some (length h)\<rparr>)"

definition spec_initializeState :: "'a heap \<Rightarrow> HistoryManager \<Rightarrow> ref \<Rightarrow> 'a heap \<times> HistoryManager" where
  "spec_initializeState h s img =
     (case clear_history h s of (h1, s1) \<Rightarrow> set_current_copy h1 s1 img)"

text \<open>
  Instances for the theorems: a heap of four caller images, the manager that
  \<^verbatim>\<open>HistoryManager(2)\<close> constructs, and heap and manager after the calls
  \<^verbatim>\<open>add_state\<close> of the first three images and one \<^verbatim>\<open>undo()\<close>, when there is
  history in both directions.
\<close>

definition ex_heap :: "string heap" where
  "ex_heap = [''A'', ''B'', ''C'', ''D'']"

definition ex_empty :: HistoryManager where
  "ex_empty =
     \<lparr>history_stack = \<lparr>items = [], maxlen = 2\<rparr>,
      redo_stack = \<lparr>items = [], maxlen = 2\<rparr>,
      max_history = 2, current_state = None\<rparr>"

definition ex_heap_used :: "string heap" where
  "ex_heap_used =
     [''A'', ''B'', ''C'', ''D'', ''A'', ''A'', ''B'', ''B'', ''C'', ''C'', ''B'']"

definition ex_store :: HistoryManager where
  "ex_store =
     \<lparr>history_stack = \<lparr>items = [5], maxlen = 2\<rparr>,
      redo_stack = \<lparr>items = [9], maxlen = 2\<rparr>,
      max_history = 2, current_state = Some 7\<rparr>"

section \<open>Auxiliary facts\<close>

lemma items_deque_append:
  "items (deque_append d x) =
     (if maxlen d < Suc (length (items d)) then tl (items d @ [x]) else items d @ [x])"
  by (simp add: deque_append_def Let_def)

lemma maxlen_deque_append [simp]: "maxlen (deque_append d x) = maxlen d"
  by (simp add: deque_append_def Let_def)

lemma items_deque_append_room:
  "length (items d) < maxlen d \<Longrightarrow> items (deque_append d x) = items d @ [x]"
  by (simp add: items_deque_append)

lemma items_deque_append_drop:
  "length (items d) \<le> maxlen d \<Longrightarrow>
   items (deque_append d x) = drop (Suc (length (items d)) - maxlen d) (items d @ [x])"
  by (cases "items d") (auto simp: items_deque_append drop_Cons' Suc_diff_le)

lemma length_deque_append:
  "length (items d) \<le> maxlen d \<Longrightarrow> length (items (deque_append d x)) \<le> maxlen d"
  by (auto simp: items_deque_append)

lemma undo_empty: "\<not> can_undo s \<Longrightarrow> undo h s = Inr (h, s, None)"
  by (simp add: undo_def)

lemma redo_empty: "\<not> can_redo s \<Longrightarrow> redo h s = Inr (h, s, None)"
  by (simp add: redo_def)

lemma undo_Some:
  assumes "can_undo s" and "current_state s = Some c"
  shows "undo h s =
    Inr (h @ [h ! c, (h @ [h ! c]) ! last (items (history_stack s))],
         s\<lparr>history_stack := (history_stack s)\<lparr>items := butlast (items (history_stack s))\<rparr>,
           redo_stack := deque_append (redo_stack s) (length h),
           current_state := Some (last (items (history_stack s)))\<rparr>,
         Some (Suc (length h)))"
  using assms
  by (simp add: undo_def can_undo_def deque_len_def deque_pop_def ndarray_copy_def Let_def)

lemma undo_None:
  assumes "can_undo s" and "current_state s = None"
  shows "undo h s =
    Inr (h @ [h ! last (items (history_stack s))],
         s\<lparr>history_stack := (history_stack s)\<lparr>items := butlast (items (history_stack s))\<rparr>,
           current_state := Some (last (items (history_stack s)))\<rparr>,
         Some (length h))"
  using assms
  by (simp add: undo_def can_undo_def deque_len_def deque_pop_def ndarray_copy_def Let_def)

lemma redo_Some:
  assumes "can_redo s" and "current_state s = Some c"
  shows "redo h s =
    Inr (h @ [h ! c, (h @ [h ! c]) ! last (items (redo_stack s))],
         s\<lparr>history_stack := deque_append (history_stack s) (length h),
           redo_stack := (redo_stack s)\<lparr>items := butlast (items (redo_stack s))\<rparr>,
           current_state := Some (last (items (redo_stack s)))\<rparr>,
         Some (Suc (length h)))"
  using assms
  by (simp add: redo_def can_redo_def deque_len_def deque_pop_def ndarray_copy_def Let_def)

lemma redo_None:
  assumes "can_redo s" and "current_state s = None"
  shows "redo h s =
    Inr (h @ [h ! last (items (redo_stack s))],
         s\<lparr>redo_stack := (redo_stack s)\<lparr>items := butlast (items (redo_stack s))\<rparr>,
           current_state := Some (last (items (redo_stack s)))\<rparr>,
         Some (length h))"
  using assms
  by (simp add: redo_def can_redo_def deque_len_def deque_pop_def ndarray_copy_def Let_def)

lemma add_state_Some:
  "current_state s = Some c \<Longrightarrow>
   add_state h s img =
     (h @ [h ! c, (h @ [h ! c]) ! img],
      s\<lparr>history_stack := deque_append (history_stack s) (length h),
        redo_stack := (redo_stack s)\<lparr>items := []\<rparr>,
        current_state := Some (Suc (length h))\<rparr>)"
  by (simp add: add_state_def ndarray_copy_def deque_clear_def Let_def)

lemma add_state_None:
  "current_state s = None \<Longrightarrow>
   add_state h s img =
     (h @ [h ! img],
      s\<lparr>redo_stack := (redo_stack s)\<lparr>items := []\<rparr>,
        current_state := Some (length h)\<rparr>)"
  by (simp add: add_state_def ndarray_copy_def deque_clear_def Let_def)

lemma hm_init_Inr:
  "hm_init n = Inr s \<longleftrightarrow>
     (0 \<le> n \<and> n \<le> PY_SSIZE_T_MAX \<and>
      s = \<lparr>history_stack = \<lparr>items = [], maxlen = nat n\<rparr>,
           redo_stack = \<lparr>items = [], maxlen = nat n\<rparr>,
           max_history = n, current_state = None\<rparr>)"
  by (auto simp: hm_init_def deque_new_def PY_SSIZE_T_MAX_def)

lemma hm_init_inv: "hm_init n = Inr s \<Longrightarrow> hm_inv s"
  by (auto simp: hm_init_Inr hm_inv_def deque_len_def can_undo_def can_redo_def)

lemma add_state_inv: "hm_inv s \<Longrightarrow> hm_inv (snd (add_state h s img))"
  by (cases "current_state s")
     (auto simp: add_state_None add_state_Some hm_inv_def deque_len_def can_undo_def
                 can_redo_def items_deque_append)

lemma undo_inv:
  assumes "hm_inv s" and "undo h s = Inr (h', s', r)"
  shows "hm_inv s'"
proof (cases "can_undo s")
  case False
  with assms show ?thesis by (simp add: undo_empty)
next
  case True
  with assms(1) obtain c where c: "current_state s = Some c"
    by (auto simp: hm_inv_def)
  from True assms(1) have room: "length (items (redo_stack s)) < maxlen (redo_stack s)"
    by (auto simp: hm_inv_def can_undo_def deque_len_def simp del: length_greater_0_conv)
  from assms True c room show ?thesis
    by (auto simp: undo_Some hm_inv_def deque_len_def can_undo_def can_redo_def
                   items_deque_append_room)
qed

lemma redo_inv:
  assumes "hm_inv s" and "redo h s = Inr (h', s', r)"
  shows "hm_inv s'"
proof (cases "can_redo s")
  case False
  with assms show ?thesis by (simp add: redo_empty)
next
  case True
  with assms(1) obtain c where c: "current_state s = Some c"
    by (auto simp: hm_inv_def)
  from True assms(1) have room: "length (items (history_stack s)) < maxlen (history_stack s)"
    by (auto simp: hm_inv_def can_redo_def deque_len_def simp del: length_greater_0_conv)
  from assms True c room show ?thesis
    by (auto simp: redo_Some hm_inv_def deque_len_def can_undo_def can_redo_def
                   items_deque_append_room)
qed

lemma clear_history_inv: "hm_inv s \<Longrightarrow> hm_inv (snd (clear_history h s))"
  by (simp add: clear_history_def hm_inv_def deque_clear_def deque_len_def can_undo_def
                can_redo_def)

lemma initialize_state_eq:
  "initialize_state h s img =
     (h @ [h ! img],
      s\<lparr>history_stack := (history_stack s)\<lparr>items := []\<rparr>,
        redo_stack := (redo_stack s)\<lparr>items := []\<rparr>,
        current_state := Some (length h)\<rparr>)"
  by (simp add: initialize_state_def clear_history_def deque_clear_def ndarray_copy_def)

lemma initialize_state_inv: "hm_inv s \<Longrightarrow> hm_inv (snd (initialize_state h s img))"
  by (simp add: initialize_state_eq hm_inv_def deque_len_def can_undo_def can_redo_def)

lemma get_current_state_store: "fst (snd (get_current_state h s)) = s"
  by (simp add: get_current_state_def ndarray_copy_def split: option.split)

lemma undo_total: "\<exists>h' s' r. undo h s = Inr (h', s', r)"
proof (cases "can_undo s")
  case False
  then show ?thesis by (simp add: undo_empty)
next
  case True
  then show ?thesis by (cases "current_state s") (simp_all add: undo_None undo_Some)
qed

lemma redo_total: "\<exists>h' s' r. redo h s = Inr (h', s', r)"
proof (cases "can_redo s")
  case False
  then show ?thesis by (simp add: redo_empty)
next
  case True
  then show ?thesis by (cases "current_state s") (simp_all add: redo_None redo_Some)
qed

lemma step_inv:
  assumes "hm_inv s"
  shows "\<exists>h' s' r. step h s x = Inr (h', s', r) \<and> hm_inv s'"
proof (cases x)
  case (AddState img)
  with add_state_inv [OF assms, of h img] show ?thesis
    by (cases "add_state h s img") simp
next
  case Undo
  obtain h' s' r where u: "undo h s = Inr (h', s', r)" using undo_total by blast
  with undo_inv [OF assms u] Undo show ?thesis by simp
next
  case Redo
  obtain h' s' r where u: "redo h s = Inr (h', s', r)" using redo_total by blast
  with redo_inv [OF assms u] Redo show ?thesis by simp
next
  case ClearHistory
  with clear_history_inv [OF assms, of h] show ?thesis
    by (cases "clear_history h s") simp
next
  case GetCurrentState
  with assms get_current_state_store [of h s] show ?thesis
    by (cases "get_current_state h s") auto
next
  case (InitializeState img)
  with initialize_state_inv [OF assms, of h img] show ?thesis
    by (cases "initialize_state h s img") simp
qed

lemma run_inv:
  "hm_inv s \<Longrightarrow> \<exists>h' s'. run h s xs = Inr (h', s') \<and> hm_inv s'"
proof (induction xs arbitrary: h s)
  case Nil
  then show ?case by simp
next
  case (Cons x xs)
  from step_inv [OF Cons.prems, of h x]
  obtain h1 s1 r where st: "step h s x = Inr (h1, s1, r)" and inv1: "hm_inv s1" by blast
  from Cons.IH [OF inv1, of h1] st show ?case by simp
qed

lemma step_max_history:
  assumes "step h s x = Inr (h', s', r)"
  shows "max_history s' = max_history s"
proof (cases x)
  case (AddState img)
  with assms show ?thesis
    by (cases "current_state s") (auto simp: add_state_None add_state_Some)
next
  case Undo
  with assms show ?thesis
    by (cases "can_undo s"; cases "current_state s")
       (auto simp: undo_empty undo_None undo_Some)
next
  case Redo
  with assms show ?thesis
    by (cases "can_redo s"; cases "current_state s")
       (auto simp: redo_empty redo_None redo_Some)
next
  case ClearHistory
  with assms show ?thesis by (auto simp: clear_history_def)
next
  case GetCurrentState
  with assms get_current_state_store [of h s] show ?thesis by auto
next
  case (InitializeState img)
  with assms show ?thesis by (auto simp: initialize_state_eq)
qed

lemma run_max_history:
  "run h s xs = Inr (h', s') \<Longrightarrow> max_history s' = max_history s"
proof (induction xs arbitrary: h s)
  case Nil
  then show ?case by simp
next
  case (Cons x xs)
  from Cons.prems obtain h1 s1 r where st: "step h s x = Inr (h1, s1, r)"
    and rest: "run h1 s1 xs = Inr (h', s')"
    by (auto split: sum.splits)
  from Cons.IH [OF rest] step_max_history [OF st] show ?case by simp
qed

lemma set_items_deque_append:
  "set (items (deque_append d x)) \<subseteq> insert x (set (items d))"
proof -
  have "set (tl (items d @ [x])) \<subseteq> set (items d @ [x])"
    by (rule list.set_sel(2) [THEN subsetI]) simp
  then show ?thesis by (auto simp: items_deque_append)
qed

lemma refs_ok_iff:
  "refs_ok h s \<longleftrightarrow>
     (\<forall>r \<in> set (items (history_stack s)). r < length h) \<and>
     (\<forall>r \<in> set (items (redo_stack s)). r < length h) \<and>
     (\<forall>c. current_state s = Some c \<longrightarrow> c < length h)"
  by (auto simp: refs_ok_def refs_of_def list_all_iff split: option.splits)

lemma in_butlast_less:
  "\<forall>r \<in> set xs. r < (n::nat) \<Longrightarrow> r \<in> set (butlast xs) \<Longrightarrow> r < n"
  by (meson in_set_butlastD)

lemma append_less:
  "\<forall>r \<in> set (items d). r < n \<Longrightarrow> x < m \<Longrightarrow> n \<le> m \<Longrightarrow>
   \<forall>r \<in> set (items (deque_append d x)). r < (m::nat)"
  using set_items_deque_append [of d x] by fastforce

lemma add_state_heap: "take (length h) (fst (add_state h s img)) = h"
  by (cases "current_state s") (simp_all add: add_state_None add_state_Some)

lemma add_state_refs_ok: "refs_ok h s \<Longrightarrow> refs_ok (fst (add_state h s img)) (snd (add_state h s img))"
proof (cases "current_state s")
  case None
  assume "refs_ok h s"
  with None show ?thesis by (auto simp: add_state_None refs_ok_iff less_SucI)
next
  case (Some c)
  assume ok: "refs_ok h s"
  then have "\<forall>r \<in> set (items (history_stack s)). r < length h" by (simp add: refs_ok_iff)
  then have "\<forall>r \<in> set (items (deque_append (history_stack s) (length h))). r < Suc (Suc (length h))"
    by (rule append_less) simp_all
  with Some show ?thesis by (simp add: add_state_Some refs_ok_iff)
qed

lemma undo_heap: "undo h s = Inr (h', s', r) \<Longrightarrow> take (length h) h' = h"
  by (cases "can_undo s"; cases "current_state s")
     (auto simp: undo_empty undo_None undo_Some)

lemma redo_heap: "redo h s = Inr (h', s', r) \<Longrightarrow> take (length h) h' = h"
  by (cases "can_redo s"; cases "current_state s")
     (auto simp: redo_empty redo_None redo_Some)

lemma last_less: "xs \<noteq> [] \<Longrightarrow> \<forall>r \<in> set xs. r < (n::nat) \<Longrightarrow> last xs < n"
  by simp

lemma undo_refs_ok:
  assumes ok: "refs_ok h s" and u: "undo h s = Inr (h', s', r)"
  shows "refs_ok h' s'"
proof (cases "can_undo s")
  case False
  with assms show ?thesis by (simp add: undo_empty)
next
  case True
  then have ne: "items (history_stack s) \<noteq> []" by (simp add: can_undo_def deque_len_def)
  from ok have hs: "\<forall>r \<in> set (items (history_stack s)). r < length h"
    and rs: "\<forall>r \<in> set (items (redo_stack s)). r < length h"
    by (simp_all add: refs_ok_iff)
  from last_less [OF ne hs] have l: "last (items (history_stack s)) < length h" .
  from hs have b: "\<forall>r \<in> set (butlast (items (history_stack s))). r < length h"
    by (meson in_set_butlastD)
  show ?thesis
  proof (cases "current_state s")
    case None
    with True u l b rs show ?thesis
      by (auto simp: undo_None refs_ok_iff less_SucI)
  next
    case (Some c)
    from rs have "\<forall>r \<in> set (items (deque_append (redo_stack s) (length h))). r < Suc (Suc (length h))"
      by (rule append_less) simp_all
    with Some True u l b show ?thesis
      by (auto simp: undo_Some refs_ok_iff less_SucI)
  qed
qed

lemma redo_refs_ok:
  assumes ok: "refs_ok h s" and u: "redo h s = Inr (h', s', r)"
  shows "refs_ok h' s'"
proof (cases "can_redo s")
  case False
  with assms show ?thesis by (simp add: redo_empty)
next
  case True
  then have ne: "items (redo_stack s) \<noteq> []" by (simp add: can_redo_def deque_len_def)
  from ok have hs: "\<forall>r \<in> set (items (history_stack s)). r < length h"
    and rs: "\<forall>r \<in> set (items (redo_stack s)). r < length h"
    by (simp_all add: refs_ok_iff)
  from last_less [OF ne rs] have l: "last (items (redo_stack s)) < length h" .
  from rs have b: "\<forall>r \<in> set (butlast (items (redo_stack s))). r < length h"
    by (meson in_set_butlastD)
  show ?thesis
  proof (cases "current_state s")
    case None
    with True u l b hs show ?thesis
      by (auto simp: redo_None refs_ok_iff less_SucI)
  next
    case (Some c)
    from hs have "\<forall>r \<in> set (items (deque_append (history_stack s) (length h))). r < Suc (Suc (length h))"
      by (rule append_less) simp_all
    with Some True u l b show ?thesis
      by (auto simp: redo_Some refs_ok_iff less_SucI)
  qed
qed

lemma clear_history_refs_ok: "refs_ok (fst (clear_history h s)) (snd (clear_history h s))"
  by (simp add: clear_history_def refs_ok_iff deque_clear_def)

lemma initialize_state_refs_ok:
  "refs_ok (fst (initialize_state h s img)) (snd (initialize_state h s img))"
  by (simp add: initialize_state_eq refs_ok_iff)

lemma get_current_state_eq:
  "get_current_state h s =
     (case current_state s of
        Some c \<Rightarrow> (h @ [h ! c], s, Some (length h))
      | None \<Rightarrow> (h, s, None))"
  by (simp add: get_current_state_def ndarray_copy_def split: option.split)

lemma get_current_state_heap: "take (length h) (fst (get_current_state h s)) = h"
  by (simp add: get_current_state_eq split: option.split)

lemma refs_ok_grow: "refs_ok h s \<Longrightarrow> refs_ok (h @ ext) s"
  by (fastforce simp: refs_ok_iff)

lemma get_current_state_refs_ok:
  "refs_ok h s \<Longrightarrow> refs_ok (fst (get_current_state h s)) s"
  by (auto simp: get_current_state_eq refs_ok_grow split: option.split)

lemma last_n_all: "length xs \<le> n \<Longrightarrow> last_n n xs = xs"
  by (simp add: last_n_def)

lemma last_n_append_last_n: "last_n n (last_n n xs @ ys) = last_n n (xs @ ys)"
proof -
  have "length xs + length ys - (length xs - n + n) + (length xs - n) = length xs + length ys - n"
    by arith
  then show ?thesis by (auto simp: last_n_def)
qed

lemma length_last_n: "length (last_n n xs) = min n (length xs)"
  by (auto simp: last_n_def)

lemma items_deque_append_last_n:
  "length (items d) \<le> maxlen d \<Longrightarrow> items (deque_append d x) = last_n (maxlen d) (items d @ [x])"
  by (simp add: items_deque_append_drop last_n_def)

lemma map_last_n: "map f (last_n n xs) = last_n n (map f xs)"
  by (simp add: last_n_def drop_map)

lemma map_nth_grow:
  "\<forall>r \<in> set rs. r < length h \<Longrightarrow> map ((!) (h @ ext)) rs = map ((!) h) rs"
  by (simp add: nth_append)

lemma nth_take_eq:
  assumes "take (length h) h' = h" and "a < length h"
  shows "h' ! a = h ! a"
proof -
  from assms(2) have "take (length h) h' ! a = h' ! a" by (rule nth_take)
  with assms(1) show ?thesis by simp
qed

lemma take_eq_length:
  assumes "take (length h) h' = h"
  shows "length h \<le> length h'"
proof -
  have "length (take (length h) h') \<le> length h'" by simp
  with assms show ?thesis by simp
qed

lemma add_state_max_history: "max_history (snd (add_state h s img)) = max_history s"
  by (cases "current_state s") (simp_all add: add_state_None add_state_Some)

lemma add_state_current_value:
  assumes "refs_ok h s" and "img < length h"
  shows "current_value (fst (add_state h s img)) (snd (add_state h s img)) = Some (h ! img)"
  using assms
  by (cases "current_state s")
     (auto simp: add_state_None add_state_Some current_value_def nth_append)

lemma add_state_undo_values:
  assumes inv: "hm_inv s" and ok: "refs_ok h s"
  shows "undo_values (fst (add_state h s img)) (snd (add_state h s img)) =
         last_n (nat (max_history s)) (undo_values h s @ option_list (current_value h s))"
proof -
  from inv have len: "length (items (history_stack s)) \<le> maxlen (history_stack s)"
    and m: "maxlen (history_stack s) = nat (max_history s)"
    by (simp_all add: hm_inv_def deque_len_def)
  from ok have hs: "\<forall>r \<in> set (items (history_stack s)). r < length h"
    by (simp add: refs_ok_iff)
  show ?thesis
  proof (cases "current_state s")
    case None
    with hs len m show ?thesis
      by (simp add: add_state_None undo_values_def current_value_def option_list_def
                    last_n_all nth_append)
  next
    case (Some c)
    from ok Some have c: "c < length h" by (simp add: refs_ok_iff)
    have mp: "map ((!) (h @ [h ! c, (h @ [h ! c]) ! img])) (items (history_stack s) @ [length h])
          = map ((!) h) (items (history_stack s)) @ [h ! c]"
      using hs by (simp add: nth_append)
    have "undo_values (fst (add_state h s img)) (snd (add_state h s img)) =
          last_n (nat (max_history s))
            (map ((!) (h @ [h ! c, (h @ [h ! c]) ! img])) (items (history_stack s) @ [length h]))"
      using Some len m
      by (simp add: add_state_Some undo_values_def items_deque_append_last_n map_last_n
               del: map_append)
    also have "\<dots> = last_n (nat (max_history s)) (map ((!) h) (items (history_stack s)) @ [h ! c])"
      by (simp only: mp)
    finally show ?thesis using Some by (simp add: undo_values_def current_value_def option_list_def)
  qed
qed

lemma run_add_states:
  assumes "hm_inv s" and "refs_ok h s" and "\<forall>i \<in> set imgs. i < length h"
    and "run h s (map AddState imgs) = Inr (h', s')"
  shows "undo_values h' s' =
           last_n (nat (max_history s))
             (undo_values h s @ butlast (option_list (current_value h s) @ map ((!) h) imgs))
         \<and> take (length h) h' = h \<and> max_history s' = max_history s"
  using assms
proof (induction imgs arbitrary: h s)
  case Nil
  then have "length (undo_values h s) \<le> nat (max_history s)"
    by (simp add: hm_inv_def deque_len_def undo_values_def)
  with Nil show ?case by (auto simp: option_list_def last_n_all split: option.split)
next
  case (Cons i js)
  define h1 where "h1 = fst (add_state h s i)"
  define s1 where "s1 = snd (add_state h s i)"
  have st: "add_state h s i = (h1, s1)" by (simp add: h1_def s1_def)
  from Cons.prems(1) have inv1: "hm_inv s1" unfolding s1_def by (rule add_state_inv)
  from Cons.prems(2) have ok1: "refs_ok h1 s1" unfolding h1_def s1_def by (rule add_state_refs_ok)
  have ext: "take (length h) h1 = h" unfolding h1_def by (rule add_state_heap)
  then have le: "length h \<le> length h1" by (rule take_eq_length)
  from Cons.prems(3) le have valid1: "\<forall>j \<in> set js. j < length h1" by auto
  from Cons.prems(4) st have run1: "run h1 s1 (map AddState js) = Inr (h', s')" by simp
  from Cons.IH [OF inv1 ok1 valid1 run1]
  have IH: "undo_values h' s' =
      last_n (nat (max_history s1))
        (undo_values h1 s1 @ butlast (option_list (current_value h1 s1) @ map ((!) h1) js))"
    and ext1: "take (length h1) h' = h1" and mh: "max_history s' = max_history s1"
    by simp_all
  have m1: "max_history s1 = max_history s" unfolding s1_def by (rule add_state_max_history)
  from Cons.prems(3) have i: "i < length h" by simp
  have cv: "current_value h1 s1 = Some (h ! i)"
    unfolding h1_def s1_def using Cons.prems(2) i by (rule add_state_current_value)
  have uv: "undo_values h1 s1 =
      last_n (nat (max_history s)) (undo_values h s @ option_list (current_value h s))"
    unfolding h1_def s1_def using Cons.prems(1,2) by (rule add_state_undo_values)
  have mp: "map ((!) h1) js = map ((!) h) js"
  proof (rule map_cong [OF refl])
    fix j
    assume "j \<in> set js"
    with Cons.prems(3) have "j < length h" by simp
    with ext show "h1 ! j = h ! j" by (rule nth_take_eq)
  qed
  have "undo_values h' s' =
      last_n (nat (max_history s))
        (undo_values h s @ option_list (current_value h s) @ butlast (h ! i # map ((!) h) js))"
    using IH by (simp add: m1 cv uv mp option_list_def last_n_append_last_n)
  moreover have "butlast (option_list (current_value h s) @ map ((!) h) (i # js)) =
      option_list (current_value h s) @ butlast (h ! i # map ((!) h) js)"
    by (simp add: butlast_append)
  moreover have "take (length h) h' = h"
  proof -
    have "take (length h) (take (length h1) h') = take (length h) h'"
      using le by (simp add: min_def)
    then have "take (length h) h1 = take (length h) h'" by (simp only: ext1)
    with ext show ?thesis by simp
  qed
  moreover have "max_history s' = max_history s" using mh m1 by simp
  ultimately show ?case by (simp only: simp_thms)
qed

text \<open>
  Every state that calls reach from the constructor satisfies the invariant, and every
  reference it holds is an object of the heap.
\<close>

lemma step_refs_ok:
  assumes ok: "refs_ok h s" and st: "step h s x = Inr (h', s', r)"
  shows "refs_ok h' s'"
proof (cases x)
  case (AddState img)
  with st add_state_refs_ok [OF ok, of img] show ?thesis
    by (cases "add_state h s img") auto
next
  case Undo
  with st have "undo h s = Inr (h', s', r)" by simp
  with ok show ?thesis by (rule undo_refs_ok)
next
  case Redo
  with st have "redo h s = Inr (h', s', r)" by simp
  with ok show ?thesis by (rule redo_refs_ok)
next
  case ClearHistory
  with st clear_history_refs_ok [of h s] show ?thesis
    by (cases "clear_history h s") auto
next
  case GetCurrentState
  with st get_current_state_refs_ok [OF ok] get_current_state_store [of h s] show ?thesis
    by (cases "get_current_state h s") auto
next
  case (InitializeState img)
  with st initialize_state_refs_ok [of h s img] show ?thesis
    by (cases "initialize_state h s img") auto
qed

lemma run_refs_ok:
  "refs_ok h s \<Longrightarrow> run h s xs = Inr (h', s') \<Longrightarrow> refs_ok h' s'"
proof (induction xs arbitrary: h s)
  case Nil
  then show ?case by simp
next
  case (Cons x xs)
  from Cons.prems(2) obtain h1 s1 r where st: "step h s x = Inr (h1, s1, r)"
    and rest: "run h1 s1 xs = Inr (h', s')"
    by (auto split: sum.splits)
  from step_refs_ok [OF Cons.prems(1) st] have "refs_ok h1 s1" .
  then show ?case using rest by (rule Cons.IH)
qed

lemma reachable_inv:
  assumes "hm_init n = Inr s0" and "run h s0 xs = Inr (h', s')"
  shows "hm_inv s' \<and> refs_ok h' s'"
proof -
  from assms(1) have "hm_inv s0" by (rule hm_init_inv)
  from run_inv [OF this, of h xs] assms(2) have a: "hm_inv s'" by simp
  from assms(1) have "refs_ok h s0" by (auto simp: hm_init_Inr refs_ok_iff)
  then have "refs_ok h' s'" using assms(2) by (rule run_refs_ok)
  with a show ?thesis by simp
qed

text \<open>
  What \<open>undo\<close> and \<open>redo\<close> do in a state that satisfies the invariant: there is a
  current image, the deque that receives its copy has room, so nothing is evicted.
\<close>

lemma undo_step:
  assumes inv: "hm_inv s" and ok: "refs_ok h s" and cu: "can_undo s"
  obtains c where "current_state s = Some c" and "c < length h"
    and "items (history_stack s) \<noteq> []"
    and "last (items (history_stack s)) < length h"
    and "undo h s =
      Inr (h @ [h ! c, h ! last (items (history_stack s))],
           s\<lparr>history_stack := (history_stack s)\<lparr>items := butlast (items (history_stack s))\<rparr>,
             redo_stack := (redo_stack s)\<lparr>items := items (redo_stack s) @ [length h]\<rparr>,
             current_state := Some (last (items (history_stack s)))\<rparr>,
           Some (Suc (length h)))"
proof -
  from cu inv obtain c where c: "current_state s = Some c" by (auto simp: hm_inv_def)
  from ok c have cl: "c < length h" by (simp add: refs_ok_iff)
  from cu have ne: "items (history_stack s) \<noteq> []" by (simp add: can_undo_def deque_len_def)
  from ok have "\<forall>r \<in> set (items (history_stack s)). r < length h" by (simp add: refs_ok_iff)
  with ne have l: "last (items (history_stack s)) < length h" by (rule last_less)
  from cu inv have room: "length (items (redo_stack s)) < maxlen (redo_stack s)"
    by (auto simp: hm_inv_def can_undo_def deque_len_def simp del: length_greater_0_conv)
  have d: "deque_append (redo_stack s) (length h) =
           (redo_stack s)\<lparr>items := items (redo_stack s) @ [length h]\<rparr>"
    using room by (simp add: deque_append_def Let_def)
  have "undo h s =
      Inr (h @ [h ! c, h ! last (items (history_stack s))],
           s\<lparr>history_stack := (history_stack s)\<lparr>items := butlast (items (history_stack s))\<rparr>,
             redo_stack := (redo_stack s)\<lparr>items := items (redo_stack s) @ [length h]\<rparr>,
             current_state := Some (last (items (history_stack s)))\<rparr>,
           Some (Suc (length h)))"
    using l by (simp add: undo_Some [OF cu c] d nth_append)
  with c cl ne l that show ?thesis by blast
qed

lemma redo_step:
  assumes inv: "hm_inv s" and ok: "refs_ok h s" and cr: "can_redo s"
  obtains c where "current_state s = Some c" and "c < length h"
    and "items (redo_stack s) \<noteq> []"
    and "last (items (redo_stack s)) < length h"
    and "redo h s =
      Inr (h @ [h ! c, h ! last (items (redo_stack s))],
           s\<lparr>history_stack := (history_stack s)\<lparr>items := items (history_stack s) @ [length h]\<rparr>,
             redo_stack := (redo_stack s)\<lparr>items := butlast (items (redo_stack s))\<rparr>,
             current_state := Some (last (items (redo_stack s)))\<rparr>,
           Some (Suc (length h)))"
proof -
  from cr inv obtain c where c: "current_state s = Some c" by (auto simp: hm_inv_def)
  from ok c have cl: "c < length h" by (simp add: refs_ok_iff)
  from cr have ne: "items (redo_stack s) \<noteq> []" by (simp add: can_redo_def deque_len_def)
  from ok have "\<forall>r \<in> set (items (redo_stack s)). r < length h" by (simp add: refs_ok_iff)
  with ne have l: "last (items (redo_stack s)) < length h" by (rule last_less)
  from cr inv have room: "length (items (history_stack s)) < maxlen (history_stack s)"
    by (auto simp: hm_inv_def can_redo_def deque_len_def simp del: length_greater_0_conv)
  have d: "deque_append (history_stack s) (length h) =
           (history_stack s)\<lparr>items := items (history_stack s) @ [length h]\<rparr>"
    using room by (simp add: deque_append_def Let_def)
  have "redo h s =
      Inr (h @ [h ! c, h ! last (items (redo_stack s))],
           s\<lparr>history_stack := (history_stack s)\<lparr>items := items (history_stack s) @ [length h]\<rparr>,
             redo_stack := (redo_stack s)\<lparr>items := butlast (items (redo_stack s))\<rparr>,
             current_state := Some (last (items (redo_stack s)))\<rparr>,
           Some (Suc (length h)))"
    using l by (simp add: redo_Some [OF cr c] d nth_append)
  with c cl ne l that show ?thesis by blast
qed

lemma hm_init_two: "hm_init 2 = Inr ex_empty"
  by (simp add: hm_init_def deque_new_def PY_SSIZE_T_MAX_def ex_empty_def)

lemma ex_store_reachable:
  "run ex_heap ex_empty [AddState 0, AddState 1, AddState 2, Undo] =
     Inr (ex_heap_used, ex_store)"
  by (simp add: ex_heap_def ex_empty_def ex_heap_used_def ex_store_def add_state_def undo_def
                can_undo_def deque_len_def deque_append_def deque_pop_def deque_clear_def
                ndarray_copy_def Let_def)

section \<open>Properties\<close>

subsection \<open>A new state discards the redo history\<close>

text \<open>
  Claim C3. After every call \<^verbatim>\<open>add_state(X)\<close>, whatever the redo stack held before, the
  redo stack is empty and \<^verbatim>\<open>can_redo\<close> is false.
\<close>

theorem add_state_clears_redo:
  "items (redo_stack (snd (add_state h s img))) = [] \<and> \<not> can_redo (snd (add_state h s img))"
  by (cases "current_state s")
     (simp_all add: add_state_None add_state_Some can_redo_def deque_len_def)

theorem add_state_clears_redo_witness:
  "can_redo ex_store \<and>
   items (redo_stack (snd (add_state ex_heap_used ex_store 3))) = [] \<and>
   \<not> can_redo (snd (add_state ex_heap_used ex_store 3))"
  using add_state_clears_redo [of ex_heap_used ex_store 3]
  by (simp add: ex_store_def can_redo_def deque_len_def)

subsection \<open>Undo and redo with nothing to restore\<close>

text \<open>
  Claim C4. \<^verbatim>\<open>undo()\<close> with an empty undo stack and \<^verbatim>\<open>redo()\<close> with an empty redo
  stack raise nothing: they return \<^verbatim>\<open>None\<close> and leave heap and manager as they were.
  In particular a manager just constructed, and any manager after
  \<^verbatim>\<open>clear_history()\<close>, has \<^verbatim>\<open>can_undo\<close> false and \<^verbatim>\<open>undo()\<close> returns
  \<^verbatim>\<open>None\<close>.
\<close>

theorem empty_undo_redo_noop:
  "(\<not> can_undo s \<longrightarrow> undo h s = Inr (h, s, None)) \<and>
   (\<not> can_redo s \<longrightarrow> redo h s = Inr (h, s, None)) \<and>
   (hm_init n = Inr s0 \<longrightarrow> \<not> can_undo s0 \<and> undo h s0 = Inr (h, s0, None)) \<and>
   (case clear_history h s of (h', s') \<Rightarrow>
      \<not> can_undo s' \<and> undo h' s' = Inr (h', s', None))"
proof -
  have a: "\<not> can_undo s \<longrightarrow> undo h s = Inr (h, s, None)" by (simp add: undo_empty)
  have b: "\<not> can_redo s \<longrightarrow> redo h s = Inr (h, s, None)" by (simp add: redo_empty)
  have c: "hm_init n = Inr s0 \<longrightarrow> \<not> can_undo s0 \<and> undo h s0 = Inr (h, s0, None)"
  proof
    assume "hm_init n = Inr s0"
    then have "\<not> can_undo s0" by (simp add: hm_init_Inr can_undo_def deque_len_def)
    then show "\<not> can_undo s0 \<and> undo h s0 = Inr (h, s0, None)" by (simp add: undo_empty)
  qed
  have d: "case clear_history h s of (h', s') \<Rightarrow>
      \<not> can_undo s' \<and> undo h' s' = Inr (h', s', None)"
  proof -
    have "\<not> can_undo (snd (clear_history h s))"
      by (simp add: clear_history_def deque_clear_def can_undo_def deque_len_def)
    then show ?thesis by (cases "clear_history h s") (simp add: undo_empty)
  qed
  from a b c d show ?thesis by (simp only: simp_thms)
qed

theorem empty_undo_redo_noop_witness:
  "\<not> can_undo ex_empty \<and> undo ex_heap ex_empty = Inr (ex_heap, ex_empty, None) \<and>
   \<not> can_redo ex_empty \<and> redo ex_heap ex_empty = Inr (ex_heap, ex_empty, None) \<and>
   hm_init 2 = Inr ex_empty \<and>
   (case clear_history ex_heap ex_empty of (h', s') \<Rightarrow>
      \<not> can_undo s' \<and> undo h' s' = Inr (h', s', None))"
proof -
  have u: "\<not> can_undo ex_empty" by (simp add: ex_empty_def can_undo_def deque_len_def)
  have r: "\<not> can_redo ex_empty" by (simp add: ex_empty_def can_redo_def deque_len_def)
  have i: "hm_init 2 = Inr ex_empty"
    by (simp add: hm_init_def deque_new_def PY_SSIZE_T_MAX_def ex_empty_def)
  from empty_undo_redo_noop [of ex_empty ex_heap 2 ex_empty] u r i show ?thesis by simp
qed

subsection \<open>Construction\<close>

text \<open>
  The constructor has no check of its own; what fails is \<^verbatim>\<open>deque(maxlen=...)\<close>, and
  that accepts zero. A manager with \<^verbatim>\<open>max_history = 0\<close> is constructed, with two
  deques that never hold an item.
\<close>

theorem hm_init_zero_succeeds:
  "hm_init 0 =
     Inr \<lparr>history_stack = \<lparr>items = [], maxlen = 0\<rparr>,
          redo_stack = \<lparr>items = [], maxlen = 0\<rparr>,
          max_history = 0, current_state = None\<rparr>"
  by (simp add: hm_init_def deque_new_def PY_SSIZE_T_MAX_def)

text \<open>
  Claim C5, amended. Construction fails exactly for a negative \<^verbatim>\<open>max_history\<close>
  (ValueError, or OverflowError below the machine index range) and for one above the
  machine index range (OverflowError). For every other value, zero included, it succeeds
  and gives a manager with two empty stacks bounded by that value and no current image.
\<close>

theorem hm_init_cases:
  "(n < - PY_SSIZE_T_MAX - 1 \<longrightarrow> hm_init n = Inl OverflowError) \<and>
   (- PY_SSIZE_T_MAX - 1 \<le> n \<and> n < 0 \<longrightarrow> hm_init n = Inl ValueError) \<and>
   (PY_SSIZE_T_MAX < n \<longrightarrow> hm_init n = Inl OverflowError) \<and>
   (0 \<le> n \<and> n \<le> PY_SSIZE_T_MAX \<longrightarrow>
      hm_init n =
        Inr \<lparr>history_stack = \<lparr>items = [], maxlen = nat n\<rparr>,
             redo_stack = \<lparr>items = [], maxlen = nat n\<rparr>,
             max_history = n, current_state = None\<rparr>)"
  by (simp add: hm_init_def deque_new_def PY_SSIZE_T_MAX_def)

theorem hm_init_cases_witness:
  "- (2 ^ 64) < - PY_SSIZE_T_MAX - 1 \<and> hm_init (- (2 ^ 64)) = Inl OverflowError \<and>
   - PY_SSIZE_T_MAX - 1 \<le> - 1 \<and> (- 1 :: int) < 0 \<and> hm_init (- 1) = Inl ValueError \<and>
   PY_SSIZE_T_MAX < 2 ^ 63 \<and> hm_init (2 ^ 63) = Inl OverflowError \<and>
   (0::int) \<le> 20 \<and> 20 \<le> PY_SSIZE_T_MAX \<and>
   hm_init 20 =
     Inr \<lparr>history_stack = \<lparr>items = [], maxlen = 20\<rparr>,
          redo_stack = \<lparr>items = [], maxlen = 20\<rparr>,
          max_history = 20, current_state = None\<rparr>"
proof -
  have b: "- (2 ^ 64) < - PY_SSIZE_T_MAX - 1" "- PY_SSIZE_T_MAX - 1 \<le> - 1"
    "PY_SSIZE_T_MAX < 2 ^ 63" "(0::int) \<le> 20" "20 \<le> PY_SSIZE_T_MAX"
    by (simp_all add: PY_SSIZE_T_MAX_def)
  from b hm_init_cases [of "- (2 ^ 64)"] hm_init_cases [of "- 1"]
    hm_init_cases [of "2 ^ 63"] hm_init_cases [of 20]
  show ?thesis by simp
qed

subsection \<open>The two stacks together\<close>

text \<open>
  Claim C10. In every state that a sequence of calls reaches from construction, undo
  stack and redo stack together hold at most \<^verbatim>\<open>max_history\<close> images, and whenever one
  of them is not empty there is a current image. No call of such a sequence raises.
\<close>

theorem reachable_combined_bound:
  assumes "hm_init n = Inr s0"
  shows "\<exists>h' s'. run h s0 ops = Inr (h', s') \<and>
           int (deque_len (history_stack s') + deque_len (redo_stack s')) \<le> n \<and>
           (can_undo s' \<or> can_redo s' \<longrightarrow> current_state s' \<noteq> None)"
proof -
  from assms have inv0: "hm_inv s0" by (rule hm_init_inv)
  from assms have n: "max_history s0 = n" by (auto simp: hm_init_Inr)
  from run_inv [OF inv0, of h ops] obtain h' s'
    where r: "run h s0 ops = Inr (h', s')" and inv: "hm_inv s'" by blast
  from run_max_history [OF r] n have "max_history s' = n" by simp
  with inv have "int (deque_len (history_stack s') + deque_len (redo_stack s')) \<le> n"
    and "can_undo s' \<or> can_redo s' \<longrightarrow> current_state s' \<noteq> None"
    by (auto simp: hm_inv_def)
  with r show ?thesis by blast
qed

theorem reachable_combined_bound_witness:
  "hm_init 2 = Inr ex_empty \<and>
   (\<exists>h' s'. run ex_heap ex_empty [AddState 0, AddState 1, AddState 2, AddState 3, Undo] =
               Inr (h', s') \<and>
      can_undo s' \<and> can_redo s' \<and>
      int (deque_len (history_stack s') + deque_len (redo_stack s')) \<le> 2 \<and>
      current_state s' \<noteq> None)"
proof -
  have i: "hm_init 2 = Inr ex_empty"
    by (simp add: hm_init_def deque_new_def PY_SSIZE_T_MAX_def ex_empty_def)
  from reachable_combined_bound [OF i, of ex_heap "[AddState 0, AddState 1, AddState 2, AddState 3, Undo]"]
  obtain h' s' where
    r: "run ex_heap ex_empty [AddState 0, AddState 1, AddState 2, AddState 3, Undo] = Inr (h', s')"
    and b: "int (deque_len (history_stack s') + deque_len (redo_stack s')) \<le> 2"
    and c: "can_undo s' \<or> can_redo s' \<longrightarrow> current_state s' \<noteq> None"
    by blast
  from r have "items (history_stack s') = [7] \<and> items (redo_stack s') = [11]"
    by (auto simp: ex_empty_def ex_heap_def add_state_def undo_def can_undo_def deque_len_def
                   deque_append_def deque_pop_def deque_clear_def ndarray_copy_def Let_def)
  then have u: "can_undo s'" "can_redo s'" by (simp_all add: can_undo_def can_redo_def deque_len_def)
  with i r b c show ?thesis by blast
qed

subsection \<open>The bound of each stack, and what the undo stack keeps\<close>

text \<open>
  Claim C1. For every sequence of calls on a manager constructed with \<^verbatim>\<open>max_history = n\<close>,
  the undo stack and the redo stack each hold at most \<open>n\<close> images. After the calls
  \<^verbatim>\<open>add_state(x1)\<close>, ..., \<^verbatim>\<open>add_state(xk)\<close> on a new manager the undo stack holds, oldest
  first, the contents of the last \<open>n\<close> of the superseded images \<open>x1\<close>, ..., \<open>x(k-1)\<close>:
  exactly \<open>n\<close> of them once more than \<open>n\<close> calls were made, the older ones being dropped.
\<close>

theorem stacks_bounded:
  assumes "hm_init n = Inr s0"
  shows "(\<exists>h' s'. run h s0 ops = Inr (h', s') \<and>
            int (deque_len (history_stack s')) \<le> n \<and>
            int (deque_len (redo_stack s')) \<le> n) \<and>
         ((\<forall>i \<in> set imgs. i < length h) \<longrightarrow>
            (\<exists>h' s'. run h s0 (map AddState imgs) = Inr (h', s') \<and>
               undo_values h' s' = last_n (nat n) (butlast (map ((!) h) imgs)) \<and>
               (nat n < length imgs \<longrightarrow> length (undo_values h' s') = nat n)))"
proof -
  from assms have inv0: "hm_inv s0" by (rule hm_init_inv)
  from assms have n: "max_history s0 = n" by (auto simp: hm_init_Inr)
  from assms have ok0: "refs_ok h s0" by (auto simp: hm_init_Inr refs_ok_iff)
  from assms have e0: "undo_values h s0 = []" "current_value h s0 = None"
    by (auto simp: hm_init_Inr undo_values_def current_value_def)
  have first: "\<exists>h' s'. run h s0 ops = Inr (h', s') \<and>
            int (deque_len (history_stack s')) \<le> n \<and>
            int (deque_len (redo_stack s')) \<le> n"
  proof -
    from run_inv [OF inv0, of h ops] obtain h' s'
      where r: "run h s0 ops = Inr (h', s')" and inv: "hm_inv s'" by blast
    from run_max_history [OF r] n have "max_history s' = n" by simp
    with inv have "int (deque_len (history_stack s')) \<le> n"
      and "int (deque_len (redo_stack s')) \<le> n"
      by (auto simp: hm_inv_def)
    with r show ?thesis by blast
  qed
  have second: "\<exists>h' s'. run h s0 (map AddState imgs) = Inr (h', s') \<and>
               undo_values h' s' = last_n (nat n) (butlast (map ((!) h) imgs)) \<and>
               (nat n < length imgs \<longrightarrow> length (undo_values h' s') = nat n)"
    if valid: "\<forall>i \<in> set imgs. i < length h"
  proof -
    from run_inv [OF inv0, of h "map AddState imgs"] obtain h' s'
      where r: "run h s0 (map AddState imgs) = Inr (h', s')" by blast
    from run_add_states [OF inv0 ok0 valid r]
    have uv: "undo_values h' s' = last_n (nat n) (butlast (map ((!) h) imgs))"
      by (simp add: e0 n option_list_def)
    then have "nat n < length imgs \<longrightarrow> length (undo_values h' s') = nat n"
      by (auto simp: length_last_n)
    with r uv show ?thesis by blast
  qed
  from first second show ?thesis by blast
qed

theorem stacks_bounded_witness:
  "hm_init 2 = Inr ex_empty \<and>
   list_all (\<lambda>i. i < length ex_heap) [0, 1, 2, 3] \<and>
   nat 2 < length [0, 1, 2, 3 :: nat] \<and>
   (\<exists>h' s'. run ex_heap ex_empty (map AddState [0, 1, 2, 3]) = Inr (h', s') \<and>
      undo_values h' s' = [''B'', ''C''] \<and> length (undo_values h' s') = nat 2)"
proof -
  have i: "hm_init 2 = Inr ex_empty"
    by (simp add: hm_init_def deque_new_def PY_SSIZE_T_MAX_def ex_empty_def)
  have v: "\<forall>i \<in> set [0, 1, 2, 3]. i < length ex_heap" by (simp add: ex_heap_def)
  have l: "last_n (nat 2) (butlast (map ((!) ex_heap) [0, 1, 2, 3])) = [''B'', ''C'']"
    by (simp add: last_n_def ex_heap_def)
  from stacks_bounded [OF i, of ex_heap "[]" "[0, 1, 2, 3]"] v
  have "\<exists>h' s'. run ex_heap ex_empty (map AddState [0, 1, 2, 3]) = Inr (h', s') \<and>
      undo_values h' s' = last_n (nat 2) (butlast (map ((!) ex_heap) [0, 1, 2, 3])) \<and>
      (nat 2 < length [0, 1, 2, 3 :: nat] \<longrightarrow> length (undo_values h' s') = nat 2)"
    by blast
  with i v l show ?thesis by (simp add: list_all_iff)
qed

subsection \<open>Undo followed by redo\<close>

text \<open>
  Claim C2. For every manager in which \<^verbatim>\<open>can_undo\<close> is true, \<^verbatim>\<open>undo()\<close> followed at
  once by \<^verbatim>\<open>redo()\<close> leaves a current image with the contents the current image had
  before the \<^verbatim>\<open>undo()\<close>, and \<^verbatim>\<open>redo()\<close> returns an array with these contents. The
  contents of both stacks are restored as well. The managers are those that satisfy the
  invariant \<open>hm_inv\<close> and hold references to existing arrays, which is every manager
  reached from the constructor (\<open>reachable_inv\<close>).
\<close>

theorem undo_redo_roundtrip:
  assumes inv: "hm_inv s" and ok: "refs_ok h s" and cu: "can_undo s"
  shows "\<exists>h1 s1 r1 h2 s2 r2.
           undo h s = Inr (h1, s1, Some r1) \<and>
           redo h1 s1 = Inr (h2, s2, Some r2) \<and>
           current_value h s \<noteq> None \<and>
           current_value h2 s2 = current_value h s \<and>
           Some (h2 ! r2) = current_value h s \<and>
           undo_values h2 s2 = undo_values h s \<and>
           redo_values h2 s2 = redo_values h s"
proof -
  let ?H = "items (history_stack s)" and ?R = "items (redo_stack s)"
  from undo_step [OF inv ok cu] obtain c where c: "current_state s = Some c"
    and cl: "c < length h" and ne: "?H \<noteq> []" and l: "last ?H < length h"
    and u: "undo h s =
      Inr (h @ [h ! c, h ! last ?H],
           s\<lparr>history_stack := (history_stack s)\<lparr>items := butlast ?H\<rparr>,
             redo_stack := (redo_stack s)\<lparr>items := ?R @ [length h]\<rparr>,
             current_state := Some (last ?H)\<rparr>,
           Some (Suc (length h)))"
    by blast
  define h1 where "h1 = h @ [h ! c, h ! last ?H]"
  define s1 where "s1 = s\<lparr>history_stack := (history_stack s)\<lparr>items := butlast ?H\<rparr>,
             redo_stack := (redo_stack s)\<lparr>items := ?R @ [length h]\<rparr>,
             current_state := Some (last ?H)\<rparr>"
  from u have u1: "undo h s = Inr (h1, s1, Some (Suc (length h)))"
    by (simp add: h1_def s1_def)
  from undo_inv [OF inv u1] have inv1: "hm_inv s1" .
  from undo_refs_ok [OF ok u1] have ok1: "refs_ok h1 s1" .
  have cr1: "can_redo s1" by (simp add: s1_def can_redo_def deque_len_def)
  from redo_step [OF inv1 ok1 cr1] obtain c1 where c1: "current_state s1 = Some c1"
    and r: "redo h1 s1 =
      Inr (h1 @ [h1 ! c1, h1 ! last (items (redo_stack s1))],
           s1\<lparr>history_stack := (history_stack s1)\<lparr>items := items (history_stack s1) @ [length h1]\<rparr>,
             redo_stack := (redo_stack s1)\<lparr>items := butlast (items (redo_stack s1))\<rparr>,
             current_state := Some (last (items (redo_stack s1)))\<rparr>,
           Some (Suc (length h1)))"
    by blast
  define h2 where "h2 = h1 @ [h1 ! c1, h1 ! last (items (redo_stack s1))]"
  define s2 where "s2 = s1\<lparr>history_stack := (history_stack s1)\<lparr>items := items (history_stack s1) @ [length h1]\<rparr>,
             redo_stack := (redo_stack s1)\<lparr>items := butlast (items (redo_stack s1))\<rparr>,
             current_state := Some (last (items (redo_stack s1)))\<rparr>"
  from r have r1: "redo h1 s1 = Inr (h2, s2, Some (Suc (length h1)))"
    by (simp add: h2_def s2_def)
  from c1 have c1_eq: "c1 = last ?H" by (simp add: s1_def)
  have lr: "last (items (redo_stack s1)) = length h" by (simp add: s1_def)
  have h2_eq: "h2 = h @ [h ! c, h ! last ?H, h ! last ?H, h ! c]"
    using l by (simp add: h2_def h1_def c1_eq lr nth_append)
  from ok have hs: "\<forall>r \<in> set ?H. r < length h" and rs: "\<forall>r \<in> set ?R. r < length h"
    by (simp_all add: refs_ok_iff)
  from hs have bs: "\<forall>r \<in> set (butlast ?H). r < length h" by (meson in_set_butlastD)
  have cv: "current_value h s = Some (h ! c)" by (simp add: current_value_def c)
  have cv2: "current_value h2 s2 = Some (h ! c)"
    by (simp add: current_value_def s2_def lr h2_eq nth_append)
  have ret: "h2 ! Suc (length h1) = h ! c"
    by (simp add: h2_eq h1_def nth_append)
  have "undo_values h2 s2 = map ((!) h2) (butlast ?H) @ [h2 ! length h1]"
    by (simp add: undo_values_def s2_def s1_def)
  also have "map ((!) h2) (butlast ?H) = map ((!) h) (butlast ?H)"
    unfolding h2_eq using bs by (rule map_nth_grow)
  also have "h2 ! length h1 = h ! last ?H"
    by (simp add: h2_eq h1_def nth_append)
  also have "map ((!) h) (butlast ?H) @ [h ! last ?H] = map ((!) h) (butlast ?H @ [last ?H])"
    by simp
  also have "butlast ?H @ [last ?H] = ?H" using ne by (rule append_butlast_last_id)
  finally have uv: "undo_values h2 s2 = undo_values h s" by (simp add: undo_values_def)
  have "redo_values h2 s2 = map ((!) h2) ?R"
    by (simp add: redo_values_def s2_def s1_def)
  also have "\<dots> = map ((!) h) ?R" unfolding h2_eq using rs by (rule map_nth_grow)
  finally have rv: "redo_values h2 s2 = redo_values h s" by (simp add: redo_values_def)
  from u1 r1 cv cv2 ret uv rv show ?thesis by auto
qed

theorem undo_redo_roundtrip_witness:
  "hm_inv ex_store \<and> refs_ok ex_heap_used ex_store \<and> can_undo ex_store \<and>
   current_value ex_heap_used ex_store = Some ''B'' \<and>
   (\<exists>h1 s1 r1 h2 s2 r2.
      undo ex_heap_used ex_store = Inr (h1, s1, Some r1) \<and>
      redo h1 s1 = Inr (h2, s2, Some r2) \<and>
      current_value h2 s2 = Some ''B'' \<and> h2 ! r2 = ''B'')"
proof -
  have a: "hm_inv ex_store"
    by (simp add: hm_inv_def ex_store_def deque_len_def can_undo_def can_redo_def)
  have b: "refs_ok ex_heap_used ex_store"
    by (simp add: refs_ok_def refs_of_def ex_store_def ex_heap_used_def)
  have c: "can_undo ex_store" by (simp add: can_undo_def ex_store_def deque_len_def)
  have d: "current_value ex_heap_used ex_store = Some ''B''"
    by (simp add: current_value_def ex_store_def ex_heap_used_def)
  from undo_redo_roundtrip [OF a b c] a b c d show ?thesis by auto
qed

subsection \<open>What one undo does\<close>

text \<open>
  Claim C6. For every manager in which \<^verbatim>\<open>can_undo\<close> is true, \<^verbatim>\<open>undo()\<close> appends a
  copy of the current image (a new object with the same contents) to the redo stack,
  takes the most recently pushed entry off the undo stack and makes it the current image,
  and returns a copy of that new current image (again a new object, which the manager
  does not hold). The undo stack gets shorter by one and the redo stack longer by one.
  The managers are those that satisfy the invariant \<open>hm_inv\<close> and hold references to
  existing arrays, which is every manager reached from the constructor
  (\<open>reachable_inv\<close>); there the redo stack has room whenever the undo stack is not
  empty, so the copy evicts nothing.
\<close>

theorem undo_moves_one:
  assumes inv: "hm_inv s" and ok: "refs_ok h s" and cu: "can_undo s"
  shows "\<exists>c h' s' out.
           current_state s = Some c \<and>
           undo h s = Inr (h', s', Some out) \<and>
           take (length h) h' = h \<and>
           items (redo_stack s') = items (redo_stack s) @ [length h] \<and>
           h' ! length h = h ! c \<and>
           items (history_stack s) = items (history_stack s') @ option_list (current_state s') \<and>
           current_state s' \<noteq> None \<and>
           undo_values h s = undo_values h' s' @ option_list (current_value h' s') \<and>
           redo_values h' s' = redo_values h s @ option_list (current_value h s) \<and>
           Some (h' ! out) = current_value h' s' \<and>
           length h \<le> out \<and> out \<notin> set (refs_of s') \<and>
           deque_len (history_stack s') + 1 = deque_len (history_stack s) \<and>
           deque_len (redo_stack s') = deque_len (redo_stack s) + 1"
proof -
  let ?H = "items (history_stack s)" and ?R = "items (redo_stack s)"
  from undo_step [OF inv ok cu] obtain c where c: "current_state s = Some c"
    and cl: "c < length h" and ne: "?H \<noteq> []" and l: "last ?H < length h"
    and u: "undo h s =
      Inr (h @ [h ! c, h ! last ?H],
           s\<lparr>history_stack := (history_stack s)\<lparr>items := butlast ?H\<rparr>,
             redo_stack := (redo_stack s)\<lparr>items := ?R @ [length h]\<rparr>,
             current_state := Some (last ?H)\<rparr>,
           Some (Suc (length h)))"
    by blast
  define h' where "h' = h @ [h ! c, h ! last ?H]"
  define s' where "s' = s\<lparr>history_stack := (history_stack s)\<lparr>items := butlast ?H\<rparr>,
             redo_stack := (redo_stack s)\<lparr>items := ?R @ [length h]\<rparr>,
             current_state := Some (last ?H)\<rparr>"
  from u have u1: "undo h s = Inr (h', s', Some (Suc (length h)))"
    by (simp add: h'_def s'_def)
  from ok have hs: "\<forall>r \<in> set ?H. r < length h" and rs: "\<forall>r \<in> set ?R. r < length h"
    by (simp_all add: refs_ok_iff)
  from hs have bs: "\<forall>r \<in> set (butlast ?H). r < length h" by (meson in_set_butlastD)
  have p1: "take (length h) h' = h" by (simp add: h'_def)
  have p2: "items (redo_stack s') = ?R @ [length h]" by (simp add: s'_def)
  have p3: "h' ! length h = h ! c" by (simp add: h'_def nth_append)
  have p4: "?H = items (history_stack s') @ option_list (current_state s')"
    using ne by (simp add: s'_def option_list_def)
  have p5: "current_state s' \<noteq> None" by (simp add: s'_def)
  have cv': "current_value h' s' = Some (h ! last ?H)"
    using l by (simp add: current_value_def s'_def h'_def nth_append)
  have "undo_values h' s' = map ((!) h') (butlast ?H)" by (simp add: undo_values_def s'_def)
  also have "\<dots> = map ((!) h) (butlast ?H)" unfolding h'_def using bs by (rule map_nth_grow)
  finally have uv': "undo_values h' s' = map ((!) h) (butlast ?H)" .
  have "map ((!) h) (butlast ?H) @ [h ! last ?H] = map ((!) h) (butlast ?H @ [last ?H])"
    by simp
  also have "butlast ?H @ [last ?H] = ?H" using ne by (rule append_butlast_last_id)
  finally have e: "map ((!) h) (butlast ?H) @ [h ! last ?H] = map ((!) h) ?H" .
  have p6: "undo_values h s = undo_values h' s' @ option_list (current_value h' s')"
    by (simp only: uv' cv' option_list_def option.case e) (simp add: undo_values_def)
  have "map ((!) h') ?R = map ((!) h) ?R" unfolding h'_def using rs by (rule map_nth_grow)
  then have p7: "redo_values h' s' = redo_values h s @ option_list (current_value h s)"
    by (simp add: redo_values_def s'_def p3 current_value_def c option_list_def)
  have p8: "Some (h' ! Suc (length h)) = current_value h' s'"
    by (simp add: cv') (simp add: h'_def nth_append)
  have p9: "Suc (length h) \<notin> set (refs_of s')"
  proof
    assume "Suc (length h) \<in> set (refs_of s')"
    then have "Suc (length h) \<in> set (butlast ?H) \<or> Suc (length h) \<in> set ?R \<or>
               Suc (length h) = length h \<or> Suc (length h) = last ?H"
      by (auto simp: refs_of_def s'_def)
    with bs rs l show False by auto
  qed
  have p10: "deque_len (history_stack s') + 1 = deque_len (history_stack s)"
    using ne by (simp add: deque_len_def s'_def)
  have p11: "deque_len (redo_stack s') = deque_len (redo_stack s) + 1"
    by (simp add: deque_len_def s'_def)
  have p12: "length h \<le> Suc (length h)" by simp
  from c u1 p1 p2 p3 p4 p5 p6 p7 p8 p9 p10 p11 p12 show ?thesis by blast
qed

theorem undo_moves_one_witness:
  "hm_inv ex_store \<and> refs_ok ex_heap_used ex_store \<and> can_undo ex_store \<and>
   (\<exists>h' s' out.
      undo ex_heap_used ex_store = Inr (h', s', Some out) \<and>
      undo_values ex_heap_used ex_store = [''A''] \<and> undo_values h' s' = [] \<and>
      current_value h' s' = Some ''A'' \<and> h' ! out = ''A'' \<and>
      redo_values ex_heap_used ex_store = [''C''] \<and> redo_values h' s' = [''C'', ''B''])"
proof -
  have a: "hm_inv ex_store"
    by (simp add: hm_inv_def ex_store_def deque_len_def can_undo_def can_redo_def)
  have b: "refs_ok ex_heap_used ex_store"
    by (simp add: refs_ok_def refs_of_def ex_store_def ex_heap_used_def)
  have c: "can_undo ex_store" by (simp add: can_undo_def ex_store_def deque_len_def)
  have d: "current_value ex_heap_used ex_store = Some ''B''"
    "undo_values ex_heap_used ex_store = [''A'']" "redo_values ex_heap_used ex_store = [''C'']"
    by (simp_all add: current_value_def undo_values_def redo_values_def ex_store_def ex_heap_used_def)
  from undo_moves_one [OF a b c] obtain c0 h' s' out where
    u: "undo ex_heap_used ex_store = Inr (h', s', Some out)"
    and x: "undo_values ex_heap_used ex_store = undo_values h' s' @ option_list (current_value h' s')"
    and y: "redo_values h' s' = redo_values ex_heap_used ex_store @ option_list (current_value ex_heap_used ex_store)"
    and z: "Some (h' ! out) = current_value h' s'"
    and n: "current_state s' \<noteq> None"
    by blast
  from n obtain v where v: "current_value h' s' = Some v"
    by (auto simp: current_value_def)
  from x v d have "undo_values h' s' = []" "v = ''A''" by (simp_all add: option_list_def)
  with u y z v d a b c show ?thesis by (simp add: option_list_def)
qed

subsection \<open>The scenario with a bound of two\<close>

text \<open>
  Claim C7. On a manager constructed with \<^verbatim>\<open>max_history = 2\<close> and four caller images
  with contents \<open>A\<close>, \<open>B\<close>, \<open>C\<close>, \<open>D\<close>, the calls \<^verbatim>\<open>add_state\<close> of each, three times
  \<^verbatim>\<open>undo()\<close> and one \<^verbatim>\<open>redo()\<close> give, call by call, the returned contents and the
  contents of current image, undo stack and redo stack listed below: after the fourth
  \<^verbatim>\<open>add_state\<close> the undo stack is \<open>[B, C]\<close> (\<open>A\<close> dropped), the third \<^verbatim>\<open>undo()\<close> returns
  \<^verbatim>\<open>None\<close> and changes nothing, and the \<^verbatim>\<open>redo()\<close> returns \<open>C\<close>.
\<close>

theorem scenario_max_two:
  "hm_init 2 = Inr ex_empty \<and>
   trace [A, B, C, D] ex_empty
     [AddState 0, AddState 1, AddState 2, AddState 3, Undo, Undo, Undo, Redo] =
   Inr [(None,   Some A, [],     []),
        (None,   Some B, [A],    []),
        (None,   Some C, [A, B], []),
        (None,   Some D, [B, C], []),
        (Some C, Some C, [B],    [D]),
        (Some B, Some B, [],     [D, C]),
        (None,   Some B, [],     [D, C]),
        (Some C, Some C, [B],    [D])]"
  by (simp add: hm_init_two ex_empty_def add_state_def undo_def redo_def can_undo_def can_redo_def
                deque_len_def deque_append_def deque_pop_def deque_clear_def ndarray_copy_def
                current_value_def undo_values_def redo_values_def Let_def nth_append)

theorem scenario_max_two_witness:
  "hm_init 2 = Inr ex_empty \<and>
   trace ex_heap ex_empty
     [AddState 0, AddState 1, AddState 2, AddState 3, Undo, Undo, Undo, Redo] =
   Inr [(None, Some ''A'', [], []),
        (None, Some ''B'', [''A''], []),
        (None, Some ''C'', [''A'', ''B''], []),
        (None, Some ''D'', [''B'', ''C''], []),
        (Some ''C'', Some ''C'', [''B''], [''D'']),
        (Some ''B'', Some ''B'', [], [''D'', ''C'']),
        (None, Some ''B'', [], [''D'', ''C'']),
        (Some ''C'', Some ''C'', [''B''], [''D''])]"
  using scenario_max_two [of "''A''" "''B''" "''C''" "''D''"]
  by (simp add: ex_heap_def)

subsection \<open>Initialising with a new image\<close>

text \<open>
  Claim C8. For every manager and every image \<open>X\<close>, \<^verbatim>\<open>initialize_state(X)\<close> gives the
  same heap and manager as \<^verbatim>\<open>clear_history()\<close> followed by setting the current image to
  a copy of \<open>X\<close>: both stacks are empty (\<^verbatim>\<open>history_count\<close> is 0, \<^verbatim>\<open>can_undo\<close> and
  \<^verbatim>\<open>can_redo\<close> are false) and the current image is a new object with the contents of
  \<open>X\<close>, whatever history the manager held before.
\<close>

theorem initialize_state_refines:
  "initialize_state h s img = spec_initializeState h s img \<and>
   (case initialize_state h s img of (h', s') \<Rightarrow>
      take (length h) h' = h \<and>
      items (history_stack s') = [] \<and> items (redo_stack s') = [] \<and>
      history_count s' = 0 \<and> \<not> can_undo s' \<and> \<not> can_redo s' \<and>
      current_state s' = Some (length h) \<and>
      (img < length h \<longrightarrow> current_value h' s' = Some (h ! img)) \<and>
      max_history s' = max_history s \<and>
      maxlen (history_stack s') = maxlen (history_stack s) \<and>
      maxlen (redo_stack s') = maxlen (redo_stack s))"
proof -
  have a: "initialize_state h s img = spec_initializeState h s img"
    by (simp add: initialize_state_eq spec_initializeState_def set_current_copy_def
                  clear_history_def deque_clear_def)
  have b: "case initialize_state h s img of (h', s') \<Rightarrow>
      take (length h) h' = h \<and>
      items (history_stack s') = [] \<and> items (redo_stack s') = [] \<and>
      history_count s' = 0 \<and> \<not> can_undo s' \<and> \<not> can_redo s' \<and>
      current_state s' = Some (length h) \<and>
      (img < length h \<longrightarrow> current_value h' s' = Some (h ! img)) \<and>
      max_history s' = max_history s \<and>
      maxlen (history_stack s') = maxlen (history_stack s) \<and>
      maxlen (redo_stack s') = maxlen (redo_stack s)"
    by (simp add: initialize_state_eq history_count_def can_undo_def can_redo_def
                  deque_len_def current_value_def)
  from a b show ?thesis by (rule conjI)
qed

theorem initialize_state_refines_witness:
  "can_undo ex_store \<and> can_redo ex_store \<and> (3::nat) < length ex_heap_used \<and>
   initialize_state ex_heap_used ex_store 3 = spec_initializeState ex_heap_used ex_store 3 \<and>
   (case initialize_state ex_heap_used ex_store 3 of (h', s') \<Rightarrow>
      history_count s' = 0 \<and> \<not> can_undo s' \<and> \<not> can_redo s' \<and>
      current_value h' s' = Some ''D'')"
proof -
  have a: "can_undo ex_store" "can_redo ex_store" "(3::nat) < length ex_heap_used"
    "ex_heap_used ! 3 = ''D''"
    by (simp_all add: can_undo_def can_redo_def deque_len_def ex_store_def ex_heap_used_def)
  from initialize_state_refines [of ex_heap_used ex_store 3] a show ?thesis
    by (auto split: prod.splits)
qed

subsection \<open>Reading the current image\<close>

text \<open>
  Claim C9. \<^verbatim>\<open>get_current_state()\<close> changes neither the manager nor any existing array:
  it returns \<^verbatim>\<open>None\<close> when there is no current image and otherwise a new array, which
  the manager does not hold, with the contents of the current image. Whatever the caller
  then writes into the returned array, the manager's images keep their contents and the
  next \<^verbatim>\<open>get_current_state()\<close> returns the same contents as the first.
\<close>

theorem get_current_state_pure:
  assumes ok: "refs_ok h s"
  shows "case get_current_state h s of (h', s', r) \<Rightarrow>
      s' = s \<and> take (length h) h' = h \<and>
      current_value h' s = current_value h s \<and>
      undo_values h' s = undo_values h s \<and>
      redo_values h' s = redo_values h s \<and>
      map_option ((!) h') r = current_value h s \<and>
      (\<forall>out v. r = Some out \<longrightarrow>
         length h \<le> out \<and> out \<notin> set (refs_of s) \<and>
         current_value (ndarray_write h' out v) s = current_value h s \<and>
         undo_values (ndarray_write h' out v) s = undo_values h s \<and>
         redo_values (ndarray_write h' out v) s = redo_values h s \<and>
         (case get_current_state (ndarray_write h' out v) s of (h'', s'', r'') \<Rightarrow>
            s'' = s \<and> map_option ((!) h'') r'' = current_value h s))"
proof (cases "current_state s")
  case None
  then show ?thesis by (simp add: get_current_state_eq current_value_def)
next
  case (Some c)
  from ok have hs: "\<forall>r \<in> set (items (history_stack s)). r < length h"
    and rs: "\<forall>r \<in> set (items (redo_stack s)). r < length h"
    by (simp_all add: refs_ok_iff)
  from ok Some have c: "c < length h" by (simp add: refs_ok_iff)
  have g: "get_current_state h s = (h @ [h ! c], s, Some (length h))"
    by (simp add: get_current_state_eq Some)
  have fresh: "length h \<notin> set (refs_of s)"
    using hs rs c by (auto simp: refs_of_def Some)
  have w: "ndarray_write (h @ [h ! c]) (length h) v = h @ [v]" for v
    by (simp add: ndarray_write_def)
  have m: "undo_values (h @ ext) s = undo_values h s"
    "redo_values (h @ ext) s = redo_values h s" for ext
    using hs rs by (simp_all add: undo_values_def redo_values_def nth_append)
  have cv: "current_value (h @ ext) s = current_value h s" for ext
    using c by (simp add: current_value_def Some nth_append)
  have g2: "get_current_state (h @ [v]) s = (h @ [v, h ! c], s, Some (Suc (length h)))" for v
    using c by (simp add: get_current_state_eq Some nth_append)
  have r2: "(h @ [v, h ! c]) ! Suc (length h) = h ! c" for v
    by (simp add: nth_append)
  show ?thesis
    using fresh c
    by (simp add: g w g2 r2 cv m) (simp add: current_value_def Some)
qed

theorem get_current_state_pure_witness:
  "refs_ok ex_heap_used ex_store \<and>
   (case get_current_state ex_heap_used ex_store of (h', s', r) \<Rightarrow>
      s' = ex_store \<and> map_option ((!) h') r = Some ''B'' \<and>
      (case get_current_state (ndarray_write h' (the r) ''X'') ex_store of (h'', s'', r'') \<Rightarrow>
         s'' = ex_store \<and> map_option ((!) h'') r'' = Some ''B''))"
proof -
  have b: "refs_ok ex_heap_used ex_store"
    by (simp add: refs_ok_def refs_of_def ex_store_def ex_heap_used_def)
  have d: "current_value ex_heap_used ex_store = Some ''B''"
    by (simp add: current_value_def ex_store_def ex_heap_used_def)
  from get_current_state_pure [OF b] b d show ?thesis
    by (auto split: prod.splits)
qed

end
